theory Spec2Isabelle
  imports Main "HOL-Library.Sublist"
begin

section \<open>The browser-automation library and the page under test\<close>

text \<open>
  \<^verbatim>\<open>verify_footer.py\<close> is a straight-line script over the Playwright library: it
  launches a browser, opens one page, navigates to a local file, and alternates
  assertions (\<^verbatim>\<open>expect(...)\<close>) with actions (\<^verbatim>\<open>click\<close>, \<^verbatim>\<open>fill\<close>, \<^verbatim>\<open>screenshot\<close>).
  The library and the page are not part of the repository. They enter the model
  as the parameter \<open>P\<close> below; every theorem holds for every value of it.

  Python strings are sequences of code points. All code points of the script's
  literals are below 256, so a \<^typ>\<open>string\<close> holds one \<^typ>\<open>char\<close> per code point.
\<close>

text \<open>A locator is a query descriptor; it is resolved anew at each use.\<close>

datatype locator =
    Css string
  | CssHasText string string
  | GetByRole string string
  | GetByText locator string bool
  | First locator

datatype expectation = ToBeVisible | ToBeHidden

text \<open>The library calls the script makes.\<close>

datatype call =
    Launch bool
  | NewPage
  | Goto string
  | Expect expectation locator
  | Click locator
  | Fill locator string
  | Screenshot locator string
  | Close

text \<open>
  What the library raises: \<^verbatim>\<open>playwright.Error\<close> (launch, new page, navigation),
  \<^verbatim>\<open>AssertionError\<close> (a failed \<^verbatim>\<open>expect\<close>), \<^verbatim>\<open>TimeoutError\<close> (an action whose
  target never became actionable).
\<close>

datatype error = PlaywrightError call | AssertionError call | TimeoutError call

text \<open>
  The environment: whether a browser can be started, how a URL loads, how the
  document changes on its own during one polling interval (\<open>tick\<close>), how many
  polls fit the library's default timeout, the selector engine (\<open>query\<close> for the
  page-level selectors), the structure of the document as the text engine sees it
  (\<open>within\<close>: the elements searched by a query scoped to an element, the element
  itself among them; \<open>children\<close>: the child elements of an element; \<open>text_of\<close>:
  the text of an element, that of its descendants included), visibility, the
  page's reaction to a click and to a fill, and the pixels of an element.
  Elements are numbered; documents are of an arbitrary type \<open>'d\<close>.
\<close>

record 'd page_model =
  can_launch :: bool
  can_open_page :: bool
  blank :: 'd
  load :: "string \<Rightarrow> 'd option"
  tick :: "'d \<Rightarrow> 'd"
  timeout :: nat
  query :: "'d \<Rightarrow> locator \<Rightarrow> nat list"
  within :: "'d \<Rightarrow> nat \<Rightarrow> nat list"
  children :: "'d \<Rightarrow> nat \<Rightarrow> nat list"
  text_of :: "'d \<Rightarrow> nat \<Rightarrow> string"
  visible :: "'d \<Rightarrow> nat \<Rightarrow> bool"
  on_click :: "nat \<Rightarrow> 'd \<Rightarrow> 'd"
  on_fill :: "nat \<Rightarrow> string \<Rightarrow> 'd \<Rightarrow> 'd"
  render :: "'d \<Rightarrow> nat \<Rightarrow> string"

text \<open>
  One entry of the trace: the call, the document at the moment the call's
  waiting ended (for an action: before the page reacts), and whether the call
  returned (\<open>True\<close>) or raised (\<open>False\<close>).
\<close>

datatype 'd event = Ev (ev_call: call) (ev_doc: 'd) (ev_ok: bool)

datatype browser_status = NotLaunched | Running | Closed | Terminated

text \<open>
  The state a run acts on: the Playwright driver process, the browser process,
  the number of Page objects created, the document in the page, the value last
  written into each input by \<^verbatim>\<open>fill\<close>, the file system, and the trace.
\<close>

record 'd state =
  driver :: bool
  browser :: browser_status
  pages :: nat
  doc :: 'd
  entered :: "nat \<rightharpoonup> string"
  files :: "string \<rightharpoonup> string"
  trace :: "'d event list"

text \<open>
  A statement either returns with the new state or raises; an exception does not
  undo what happened before it, so the error carries the state too.
\<close>

type_synonym 'd outcome = "(error \<times> 'd state) + 'd state"

definition final :: "'d outcome \<Rightarrow> 'd state" where
  "final r = (case r of Inl (e, s) \<Rightarrow> s | Inr s \<Rightarrow> s)"

definition raised :: "'d outcome \<Rightarrow> error option" where
  "raised r = (case r of Inl (e, s) \<Rightarrow> Some e | Inr s \<Rightarrow> None)"

text \<open>Statements in sequence: the first one that raises ends the sequence.\<close>

fun seq :: "('d state \<Rightarrow> 'd outcome) list \<Rightarrow> 'd state \<Rightarrow> 'd outcome" where
  "seq [] s = Inr s"
| "seq (f # fs) s = (case f s of Inl es \<Rightarrow> Inl es | Inr s' \<Rightarrow> seq fs s')"

definition log :: "call \<Rightarrow> bool \<Rightarrow> 'd state \<Rightarrow> 'd state" where
  "log c ok s = s\<lparr>trace := trace s @ [Ev c (doc s) ok]\<rparr>"

subsection \<open>Locators\<close>

text \<open>
  The text engine's non-exact matching, for texts of code points below 256. Both
  the text asked for and the element's text are normalised (soft hyphens removed,
  white space trimmed at both ends, every run of white space replaced by one
  space) and lower-cased; the element's text matches if it then contains the
  text asked for.
\<close>

definition is_space :: "char \<Rightarrow> bool" where
  "is_space c = (c \<in> set [CHR 0x09, CHR 0x0A, CHR 0x0B, CHR 0x0C, CHR 0x0D, CHR 0x20, CHR 0xA0])"

definition to_lower :: "char \<Rightarrow> char" where
  "to_lower c =
     (let n = of_char c :: nat
      in if (65 \<le> n \<and> n \<le> 90) \<or> (192 \<le> n \<and> n \<le> 222 \<and> n \<noteq> 215)
         then char_of (n + 32) else c)"

definition trim :: "string \<Rightarrow> string" where
  "trim t = rev (dropWhile is_space (rev (dropWhile is_space t)))"

function collapse :: "string \<Rightarrow> string" where
  "collapse [] = []"
| "collapse (c # cs) =
     (if is_space c then CHR 0x20 # collapse (dropWhile is_space cs) else c # collapse cs)"
  by pat_completeness auto
termination
  by (relation "measure length") (auto simp: less_Suc_eq_le length_dropWhile_le)

definition normalize_white_space :: "string \<Rightarrow> string" where
  "normalize_white_space t = collapse (trim (filter (\<lambda>c. c \<noteq> CHR 0xAD) t))"

definition lax_text_match :: "string \<Rightarrow> string \<Rightarrow> bool" where
  "lax_text_match t body =
     sublist (map to_lower (normalize_white_space t)) (map to_lower (normalize_white_space body))"

text \<open>
  An element is a match for a text if its own text matches and the text of none
  of its child elements does: the smallest elements that hold the text.
\<close>

definition text_matches_self :: "'d page_model \<Rightarrow> 'd \<Rightarrow> string \<Rightarrow> nat \<Rightarrow> bool" where
  "text_matches_self P d t e =
     (lax_text_match t (text_of P d e)
      \<and> \<not> list_ex (\<lambda>c. lax_text_match t (text_of P d c)) (children P d e))"

text \<open>
  \<^verbatim>\<open>loc.first\<close> keeps the first match; \<^verbatim>\<open>loc.get_by_text(t, exact=False)\<close> keeps,
  among the elements searched under the matches of \<open>loc\<close>, the matches for \<open>t\<close>;
  the other locators are queries of the selector engine.
\<close>

fun resolve :: "'d page_model \<Rightarrow> 'd \<Rightarrow> locator \<Rightarrow> nat list" where
  "resolve P d (First l) = take 1 (resolve P d l)"
| "resolve P d (GetByText l t False) =
     filter (text_matches_self P d t)
       (remdups (concat (map (within P d) (resolve P d l))))"
| "resolve P d l = query P d l"

text \<open>
  The element an action or a visibility assertion is about: the locator must
  match exactly one element (strictness), and the element must be visible.
\<close>

definition target :: "'d page_model \<Rightarrow> locator \<Rightarrow> 'd \<Rightarrow> nat option" where
  "target P l d =
     (case resolve P d l of
        [e] \<Rightarrow> if visible P d e then Some e else None
      | _ \<Rightarrow> None)"

fun holds :: "'d page_model \<Rightarrow> expectation \<Rightarrow> locator \<Rightarrow> 'd \<Rightarrow> bool" where
  "holds P ToBeVisible l d = (target P l d \<noteq> None)"
| "holds P ToBeHidden l d =
     (case resolve P d l of
        [] \<Rightarrow> True
      | [e] \<Rightarrow> \<not> visible P d e
      | _ \<Rightarrow> False)"

text \<open>
  Waiting: the library polls the condition until it holds or the timeout is used
  up. \<open>await tk c n d\<close> is the document at which the waiting ends.
\<close>

fun await :: "('d \<Rightarrow> 'd) \<Rightarrow> ('d \<Rightarrow> bool) \<Rightarrow> nat \<Rightarrow> 'd \<Rightarrow> 'd" where
  "await tk c 0 d = d"
| "await tk c (Suc n) d = (if c d then d else await tk c n (tk d))"

subsection \<open>The library calls\<close>

definition launch :: "'d page_model \<Rightarrow> bool \<Rightarrow> 'd state \<Rightarrow> 'd outcome" where
  "launch P headless s =
     (if can_launch P then Inr (log (Launch headless) True (s\<lparr>browser := Running\<rparr>))
      else Inl (PlaywrightError (Launch headless), log (Launch headless) False s))"

definition new_page :: "'d page_model \<Rightarrow> 'd state \<Rightarrow> 'd outcome" where
  "new_page P s =
     (if can_open_page P
      then Inr (log NewPage True (s\<lparr>pages := Suc (pages s), doc := blank P\<rparr>))
      else Inl (PlaywrightError NewPage, log NewPage False s))"

definition goto :: "'d page_model \<Rightarrow> string \<Rightarrow> 'd state \<Rightarrow> 'd outcome" where
  "goto P url s =
     (case load P url of
        None \<Rightarrow> Inl (PlaywrightError (Goto url), log (Goto url) False s)
      | Some d \<Rightarrow> Inr (log (Goto url) True (s\<lparr>doc := d\<rparr>)))"

definition expect :: "'d page_model \<Rightarrow> expectation \<Rightarrow> locator \<Rightarrow> 'd state \<Rightarrow> 'd outcome" where
  "expect P x l s =
     (let d = await (tick P) (holds P x l) (timeout P) (doc s);
          s' = log (Expect x l) (holds P x l d) (s\<lparr>doc := d\<rparr>)
      in if holds P x l d then Inr s' else Inl (AssertionError (Expect x l), s'))"

definition click :: "'d page_model \<Rightarrow> locator \<Rightarrow> 'd state \<Rightarrow> 'd outcome" where
  "click P l s =
     (let d = await (tick P) (holds P ToBeVisible l) (timeout P) (doc s)
      in case target P l d of
           None \<Rightarrow> Inl (TimeoutError (Click l), log (Click l) False (s\<lparr>doc := d\<rparr>))
         | Some e \<Rightarrow> Inr ((log (Click l) True (s\<lparr>doc := d\<rparr>))\<lparr>doc := on_click P e d\<rparr>))"

definition fill :: "'d page_model \<Rightarrow> locator \<Rightarrow> string \<Rightarrow> 'd state \<Rightarrow> 'd outcome" where
  "fill P l v s =
     (let d = await (tick P) (holds P ToBeVisible l) (timeout P) (doc s)
      in case target P l d of
           None \<Rightarrow> Inl (TimeoutError (Fill l v), log (Fill l v) False (s\<lparr>doc := d\<rparr>))
         | Some e \<Rightarrow>
             Inr ((log (Fill l v) True (s\<lparr>doc := d\<rparr>))
                    \<lparr>doc := on_fill P e v d, entered := (entered s)(e \<mapsto> v)\<rparr>))"

definition screenshot :: "'d page_model \<Rightarrow> locator \<Rightarrow> string \<Rightarrow> 'd state \<Rightarrow> 'd outcome" where
  "screenshot P l path s =
     (let d = await (tick P) (holds P ToBeVisible l) (timeout P) (doc s)
      in case target P l d of
           None \<Rightarrow>
             Inl (TimeoutError (Screenshot l path), log (Screenshot l path) False (s\<lparr>doc := d\<rparr>))
         | Some e \<Rightarrow>
             Inr ((log (Screenshot l path) True (s\<lparr>doc := d\<rparr>))
                    \<lparr>files := (files s)(path \<mapsto> render P d e)\<rparr>))"

definition close :: "'d state \<Rightarrow> 'd outcome" where
  "close s = Inr (log Close True (s\<lparr>browser := Closed\<rparr>))"

text \<open>
  \<^verbatim>\<open>with sync_playwright() as p:\<close> starts the driver on entry and stops it on every
  exit from the block, also when the block raises. Stopping the driver ends a
  browser it launched that is still running.
\<close>

definition playwright_start :: "'d state \<Rightarrow> 'd state" where
  "playwright_start s = s\<lparr>driver := True\<rparr>"

definition playwright_stop :: "'d state \<Rightarrow> 'd state" where
  "playwright_stop s =
     s\<lparr>driver := False,
       browser := (if browser s = Running then Terminated else browser s)\<rparr>"

definition with_sync_playwright ::
  "('d state \<Rightarrow> 'd outcome) \<Rightarrow> 'd state \<Rightarrow> 'd outcome" where
  "with_sync_playwright body s =
     (case body (playwright_start s) of
        Inl (e, s') \<Rightarrow> Inl (e, playwright_stop s')
      | Inr s' \<Rightarrow> Inr (playwright_stop s'))"

section \<open>The script\<close>

text \<open>The process a run lives in. \<^verbatim>\<open>os.getcwd()\<close> reads its working directory.\<close>

record process =
  argv :: "string list"
  environ :: "string \<rightharpoonup> string"
  cwd :: string

text \<open>\<^verbatim>\<open>os.path.join(a, b)\<close> for two components (POSIX).\<close>

definition os_path_join :: "string \<Rightarrow> string \<Rightarrow> string" where
  "os_path_join a b =
     (if b \<noteq> [] \<and> hd b = CHR ''/'' then b
      else if a = [] \<or> last a = CHR ''/'' then a @ b
      else a @ ''/'' @ b)"

definition loading_placeholder :: locator where
  "loading_placeholder = Css ''.animate-pulse''"

definition calculadoras_section :: locator where
  "calculadoras_section = CssHasText ''summary'' ''Calculadoras''"

definition ferias_button :: locator where
  "ferias_button = GetByRole ''button'' (''F'' @ [CHR 0xE9] @ ''rias'')"

definition salario_input :: locator where
  "salario_input = Css ''#ferias-salarioBruto''"

definition calculate_button :: locator where
  \<open>calculate_button = Css ''[data-action="calculate-now"][data-calc="ferias"]''\<close>

definition results_container :: locator where
  "results_container = Css ''#ferias-results''"

definition legal_notice_text :: string where
  "legal_notice_text =
     ''Valores aproximados para orienta'' @ [CHR 0xE7, CHR 0xE3] @ ''o, n'' @ [CHR 0xE3]
       @ ''o substitui assessoria jur'' @ [CHR 0xED] @ ''dica.''"

definition legal_notice_element :: locator where
  "legal_notice_element = GetByText results_container legal_notice_text False"

definition screenshot_path :: string where
  "screenshot_path = ''jules-scratch/verification/verification.png''"

definition target_url :: "string \<Rightarrow> string" where
  "target_url current_dir = ''file://'' @ os_path_join current_dir ''index.html''"

text \<open>The body of the \<^verbatim>\<open>with\<close> block, statement by statement.\<close>

definition script :: "'d page_model \<Rightarrow> string \<Rightarrow> ('d state \<Rightarrow> 'd outcome) list" where
  "script P current_dir =
     [launch P True,
      new_page P,
      goto P (target_url current_dir),
      expect P ToBeHidden (First loading_placeholder),
      expect P ToBeVisible calculadoras_section,
      click P calculadoras_section,
      expect P ToBeVisible ferias_button,
      click P ferias_button,
      expect P ToBeVisible salario_input,
      fill P salario_input ''5000.00'',
      expect P ToBeVisible calculate_button,
      click P calculate_button,
      expect P ToBeVisible results_container,
      expect P ToBeVisible legal_notice_element,
      screenshot P results_container screenshot_path,
      close]"

definition run_verification :: "'d page_model \<Rightarrow> process \<Rightarrow> 'd state \<Rightarrow> 'd outcome" where
  "run_verification P pr s = with_sync_playwright (seq (script P (cwd pr))) s"

text \<open>
  The module's top level: the imports, the definition of \<^verbatim>\<open>run_verification\<close>, and
  the call under \<^verbatim>\<open>if __name__ == "__main__":\<close>.
\<close>

definition module_top_level ::
  "'d page_model \<Rightarrow> string \<Rightarrow> process \<Rightarrow> 'd state \<Rightarrow> 'd outcome" where
  "module_top_level P name pr s =
     (if name = ''__main__'' then run_verification P pr s else Inr s)"

text \<open>
  Running the script in a process. The script reads the working directory and
  nothing else of the process; the library it calls reads the environment (where
  the browsers are installed, for one), so what the library and the page do is a
  function \<open>L\<close> of the environment.
\<close>

definition invocation ::
  "((string \<rightharpoonup> string) \<Rightarrow> 'd page_model) \<Rightarrow> process \<Rightarrow> 'd state \<Rightarrow> 'd outcome" where
  "invocation L pr s = module_top_level (L (environ pr)) ''__main__'' pr s"

text \<open>The state of a process that has not touched the library, on a file system \<open>fs\<close>.\<close>

definition fresh :: "'d page_model \<Rightarrow> (string \<rightharpoonup> string) \<Rightarrow> 'd state" where
  "fresh P fs =
     \<lparr>driver = False, browser = NotLaunched, pages = 0, doc = blank P,
      entered = Map.empty, files = fs, trace = []\<rparr>"

section \<open>Reading a run\<close>

text \<open>
  The script as the list of the library calls it makes, and the statement each
  call stands for.
\<close>

fun perform :: "'d page_model \<Rightarrow> call \<Rightarrow> 'd state \<Rightarrow> 'd outcome" where
  "perform P (Launch h) = launch P h"
| "perform P NewPage = new_page P"
| "perform P (Goto u) = goto P u"
| "perform P (Expect x l) = expect P x l"
| "perform P (Click l) = click P l"
| "perform P (Fill l v) = fill P l v"
| "perform P (Screenshot l p) = screenshot P l p"
| "perform P Close = close"

definition script_calls :: "string \<Rightarrow> call list" where
  "script_calls current_dir =
     [Launch True, NewPage, Goto (target_url current_dir),
      Expect ToBeHidden (First loading_placeholder),
      Expect ToBeVisible calculadoras_section, Click calculadoras_section,
      Expect ToBeVisible ferias_button, Click ferias_button,
      Expect ToBeVisible salario_input, Fill salario_input ''5000.00'',
      Expect ToBeVisible calculate_button, Click calculate_button,
      Expect ToBeVisible results_container,
      Expect ToBeVisible legal_notice_element,
      Screenshot results_container screenshot_path,
      Close]"

definition calls :: "'d state \<Rightarrow> call list" where
  "calls s = map ev_call (trace s)"

text \<open>The error a call raises when it fails.\<close>

fun error_of :: "call \<Rightarrow> error" where
  "error_of (Expect x l) = AssertionError (Expect x l)"
| "error_of (Click l) = TimeoutError (Click l)"
| "error_of (Fill l v) = TimeoutError (Fill l v)"
| "error_of (Screenshot l p) = TimeoutError (Screenshot l p)"
| "error_of c = PlaywrightError c"


fun screenshots :: "call list \<Rightarrow> (locator \<times> string) list" where
  "screenshots [] = []"
| "screenshots (Screenshot l p # cs) = (l, p) # screenshots cs"
| "screenshots (c # cs) = screenshots cs"

fun fills :: "call list \<Rightarrow> (locator \<times> string) list" where
  "fills [] = []"
| "fills (Fill l v # cs) = (l, v) # fills cs"
| "fills (c # cs) = fills cs"

fun expectations :: "call list \<Rightarrow> (expectation \<times> locator) list" where
  "expectations [] = []"
| "expectations (Expect x l # cs) = (x, l) # expectations cs"
| "expectations (c # cs) = expectations cs"

text \<open>The assertions that passed: what was expected, of which locator, in which document.\<close>

fun checks :: "'d event list \<Rightarrow> (expectation \<times> locator \<times> 'd) list" where
  "checks [] = []"
| "checks (Ev (Expect x l) d True # evs) = (x, l, d) # checks evs"
| "checks (ev # evs) = checks evs"

text \<open>
  An event agrees with the document it was recorded in: an assertion passed
  exactly if its condition held there, and an action went ahead exactly if its
  locator had a unique visible match there.
\<close>

definition justified :: "'d page_model \<Rightarrow> 'd event \<Rightarrow> bool" where
  "justified P ev =
     (case ev_call ev of
        Expect x l \<Rightarrow> ev_ok ev = holds P x l (ev_doc ev)
      | Click l \<Rightarrow> ev_ok ev = (target P l (ev_doc ev) \<noteq> None)
      | Fill l v \<Rightarrow> ev_ok ev = (target P l (ev_doc ev) \<noteq> None)
      | Screenshot l p \<Rightarrow> ev_ok ev = (target P l (ev_doc ev) \<noteq> None)
      | _ \<Rightarrow> True)"

section \<open>A concrete page\<close>

text \<open>
  A page that behaves as the calculator is expected to. Documents are stages:
  0 blank, 1 sidebar loading, 2 sidebar loaded, 3 section expanded, 4 form
  shown, 5 salary entered, 6 results shown. Elements: 1 the summary, 2 the
  button, 3 the salary input, 4 the calculate trigger, 5 the results container,
  6 the legal notice inside it, 10 and 11 the loading placeholders.
\<close>

definition demo_page :: "nat page_model" where
  "demo_page =
     \<lparr>can_launch = True, can_open_page = True, blank = 0,
      load = (\<lambda>url. if url = ''file:///app/index.html'' then Some 1 else None),
      tick = (\<lambda>d. if d = 1 then 2 else d),
      timeout = 3,
      query = (\<lambda>d l.
        if l = loading_placeholder then (if d = 1 then [10, 11] else [])
        else if l = calculadoras_section then (if 2 \<le> d then [1] else [])
        else if l = ferias_button then (if 3 \<le> d then [2] else [])
        else if l = salario_input then (if 4 \<le> d then [3] else [])
        else if l = calculate_button then (if 4 \<le> d then [4] else [])
        else if l = results_container then (if 4 \<le> d then [5] else [])
        else []),
      within = (\<lambda>d e. if e = 5 then [5, 6] else [e]),
      children = (\<lambda>d e. if e = 5 then [6] else []),
      text_of = (\<lambda>d e. if e = 5 \<or> e = 6 then legal_notice_text else []),
      visible = (\<lambda>d e. if e = 5 \<or> e = 6 then d = 6 else True),
      on_click = (\<lambda>e d.
        if e = 1 \<and> d = 2 then 3 else if e = 2 \<and> d = 3 then 4
        else if e = 4 \<and> d = 5 then 6 else d),
      on_fill = (\<lambda>e v d. if e = 3 \<and> d = 4 \<and> v = ''5000.00'' then 5 else d),
      render = (\<lambda>d e. ''PNG'')\<rparr>"

text \<open>
  The same page without the button; with the legal notice present but hidden;
  with the notice partly in capitals and with wider spacing; with a notice in
  other words; and with the notice twice.
\<close>

definition no_ferias_page :: "nat page_model" where
  "no_ferias_page =
     demo_page\<lparr>query := (\<lambda>d l. if l = ferias_button then [] else query demo_page d l)\<rparr>"







definition demo_process :: process where
  "demo_process = \<lparr>argv = [''verify_footer.py''], environ = Map.empty, cwd = ''/app''\<rparr>"

definition other_process :: process where
  "other_process =
     \<lparr>argv = [''verify_footer.py'', ''--headed''],
      environ = [''DEBUG'' \<mapsto> ''1''], cwd = ''/app''\<rparr>"

definition misconfigured_process :: process where
  "misconfigured_process =
     \<lparr>argv = [''verify_footer.py''],
      environ = [''PLAYWRIGHT_BROWSERS_PATH'' \<mapsto> ''/nonexistent''], cwd = ''/app''\<rparr>"

text \<open>
  A library that finds its browsers unless the environment points it to a place
  where there are none.
\<close>

definition demo_library :: "(string \<rightharpoonup> string) \<Rightarrow> nat page_model" where
  "demo_library env =
     (case env ''PLAYWRIGHT_BROWSERS_PATH'' of
        None \<Rightarrow> demo_page
      | Some dir \<Rightarrow> demo_page\<lparr>can_launch := False\<rparr>)"

section \<open>Sequencing, traces and frames\<close>

subsection \<open>Outcomes and sequences\<close>

lemma final_simps [simp]: "final (Inr s) = s" "final (Inl (e, s)) = s"
  by (simp_all add: final_def)

lemma raised_simps [simp]: "raised (Inr s) = None" "raised (Inl (e, s)) = Some e"
  by (simp_all add: raised_def)

lemma seq_append:
  "seq (fs @ gs) s = (case seq fs s of Inl es \<Rightarrow> Inl es | Inr s' \<Rightarrow> seq gs s')"
  by (induction fs arbitrary: s) (auto split: sum.splits)

lemma seq_invariant:
  assumes "\<And>f s. f \<in> set fs \<Longrightarrow> I s \<Longrightarrow> I (final (f s))" and "I s"
  shows "I (final (seq fs s))"
  using assms
proof (induction fs arbitrary: s)
  case Nil
  then show ?case by simp
next
  case (Cons f fs)
  show ?case
  proof (cases "f s")
    case (Inl es)
    then have "final (seq (f # fs) s) = final (f s)" by simp
    with Cons.prems show ?thesis by simp
  next
    case (Inr s1)
    with Cons.prems have "I s1" by (metis final_simps(1) list.set_intros(1))
    with Cons have "I (final (seq fs s1))" by simp
    with Inr show ?thesis by simp
  qed
qed

lemma seq_cut:
  assumes "\<And>s. raised (g s) \<noteq> None"
  shows "seq (fs @ g # hs) s = seq (fs @ [g]) s"
proof -
  have "seq (g # hs) s' = seq [g] s'" for s'
    using assms [of s'] by (cases "g s'") simp_all
  then show ?thesis by (simp only: seq_append)
qed

lemma seq_snoc_raises:
  assumes "\<And>s. raised (g s) \<noteq> None"
  shows "raised (seq (fs @ [g]) s) \<noteq> None"
proof (cases "seq fs s")
  case (Inl es)
  then show ?thesis by (cases es) (simp add: seq_append)
next
  case (Inr s1)
  then show ?thesis using assms [of s1] by (cases "g s1") (simp_all add: seq_append)
qed

lemma final_with_sync_playwright:
  "final (with_sync_playwright body s) = playwright_stop (final (body (playwright_start s)))"
  by (simp add: with_sync_playwright_def split: sum.splits prod.splits)

lemma raised_with_sync_playwright:
  "raised (with_sync_playwright body s) = raised (body (playwright_start s))"
  by (simp add: with_sync_playwright_def split: sum.splits prod.splits)

lemma stop_not_running: "browser (playwright_stop s) \<noteq> Running" "\<not> driver (playwright_stop s)"
  by (simp_all add: playwright_stop_def)

lemma stop_closed: "browser (playwright_stop s) = Closed \<longleftrightarrow> browser s = Closed"
  by (simp add: playwright_stop_def)

lemma browser_stop_closed: "browser s = Closed \<Longrightarrow> browser (playwright_stop s) = Closed"
  by (simp add: playwright_stop_def)

lemma trace_stop [simp]: "trace (playwright_stop s) = trace s"
  by (simp add: playwright_stop_def)

lemma calls_stop [simp]: "calls (playwright_stop s) = calls s"
  by (simp add: calls_def)

lemma files_stop [simp]: "files (playwright_stop s) = files s"
  by (simp add: playwright_stop_def)

lemma entered_stop [simp]: "entered (playwright_stop s) = entered s"
  by (simp add: playwright_stop_def)

lemma pages_stop [simp]: "pages (playwright_stop s) = pages s"
  by (simp add: playwright_stop_def)

lemma trace_start_fresh [simp]: "trace (playwright_start (fresh P fs)) = []"
  by (simp add: playwright_start_def fresh_def)

lemma calls_start_fresh [simp]: "calls (playwright_start (fresh P fs)) = []"
  by (simp add: calls_def)

subsection \<open>Locators and waiting\<close>

text \<open>Equal texts match; this spares the evaluation the normalisation of both.\<close>

lemma lax_text_match_code [code]:
  "lax_text_match t body =
     (if t = body then True
      else sublist (map to_lower (normalize_white_space t))
             (map to_lower (normalize_white_space body)))"
  by (simp add: lax_text_match_def)

lemma target_iff:
  "(target P l d \<noteq> None) = (\<exists>e. resolve P d l = [e] \<and> visible P d e)"
  "(\<exists>y. target P l d = Some y) = (\<exists>e. resolve P d l = [e] \<and> visible P d e)"
  by (auto simp: target_def split: list.splits if_splits)

lemma hidden_first:
  "holds P ToBeHidden (First l) d =
     (case resolve P d l of [] \<Rightarrow> True | e # es \<Rightarrow> \<not> visible P d e)"
  by (cases "resolve P d l") simp_all



lemma expect_absent_raises:
  assumes "\<forall>d. resolve P d l = []"
  shows "raised (expect P ToBeVisible l s) \<noteq> None"
  using assms by (simp add: expect_def Let_def target_def)

subsection \<open>What one call does\<close>

lemmas call_defs =
  launch_def new_page_def goto_def expect_def click_def fill_def screenshot_def close_def
  log_def Let_def

lemma perform_event:
  "\<exists>d. trace (final (perform P c s)) = trace s @ [Ev c d (raised (perform P c s) = None)]
       \<and> justified P (Ev c d (raised (perform P c s) = None))
       \<and> (\<forall>e. raised (perform P c s) = Some e \<longrightarrow> e = error_of c)"
  by (cases c)
     (auto simp: launch_def new_page_def goto_def expect_def click_def fill_def screenshot_def
        close_def log_def justified_def Let_def split: option.splits)

lemma perform_not_closed:
  "c \<noteq> Close \<Longrightarrow> browser s \<noteq> Closed \<Longrightarrow> browser (final (perform P c s)) \<noteq> Closed"
  by (cases c) (auto simp: call_defs split: option.splits)

lemma perform_pages: "c \<noteq> NewPage \<Longrightarrow> pages (final (perform P c s)) = pages s"
  by (cases c) (auto simp: call_defs split: option.splits)

lemma perform_files:
  "\<forall>l p. c \<noteq> Screenshot l p \<Longrightarrow> files (final (perform P c s)) = files s"
  by (cases c) (auto simp: call_defs split: option.splits)

lemma perform_entered:
  "\<forall>l v. c \<noteq> Fill l v \<Longrightarrow> entered (final (perform P c s)) = entered s"
  by (cases c) (auto simp: call_defs split: option.splits)

lemma screenshot_Inr:
  assumes "screenshot P l p s = Inr s'"
  shows "\<exists>d e. target P l d = Some e \<and> trace s' = trace s @ [Ev (Screenshot l p) d True]
     \<and> files s' = (files s)(p \<mapsto> render P d e)"
  using assms by (auto simp: screenshot_def log_def Let_def split: option.splits)

lemma fill_Inr:
  assumes "fill P l v s = Inr s'"
  shows "\<exists>d e. target P l d = Some e \<and> trace s' = trace s @ [Ev (Fill l v) d True]
     \<and> entered s' = (entered s)(e \<mapsto> v)"
  using assms by (auto simp: fill_def log_def Let_def split: option.splits)

subsection \<open>What a sequence of calls does\<close>

lemma script_perform: "script P current_dir = map (perform P) (script_calls current_dir)"
  by (simp add: script_def script_calls_def)

lemma seq_perform_trace:
  "\<exists>evs. trace (final (seq (map (perform P) cs) s)) = trace s @ evs
     \<and> list_all (justified P) evs
     \<and> (case raised (seq (map (perform P) cs) s) of
          None \<Rightarrow> map ev_call evs = cs \<and> map ev_ok evs = replicate (length cs) True
        | Some e \<Rightarrow> (\<exists>k<length cs. map ev_call evs = take (Suc k) cs
             \<and> map ev_ok evs = replicate k True @ [False] \<and> e = error_of (cs ! k)))"
proof (induction cs arbitrary: s)
  case Nil
  then show ?case by simp
next
  case (Cons c cs)
  obtain d where d: "trace (final (perform P c s)) = trace s @ [Ev c d (raised (perform P c s) = None)]"
    "justified P (Ev c d (raised (perform P c s) = None))"
    "\<forall>e. raised (perform P c s) = Some e \<longrightarrow> e = error_of c"
    using perform_event [of P c s] by blast
  show ?case
  proof (cases "perform P c s")
    case (Inl es)
    obtain e s' where es: "es = (e, s')" by (cases es)
    with Inl d show ?thesis
      by (intro exI [of _ "[Ev c d False]"]) (auto intro: exI [of _ 0])
  next
    case (Inr s1)
    from Cons.IH [of s1] obtain evs where evs:
      "trace (final (seq (map (perform P) cs) s1)) = trace s1 @ evs"
      "list_all (justified P) evs"
      "(case raised (seq (map (perform P) cs) s1) of
          None \<Rightarrow> map ev_call evs = cs \<and> map ev_ok evs = replicate (length cs) True
        | Some e \<Rightarrow> (\<exists>k<length cs. map ev_call evs = take (Suc k) cs
             \<and> map ev_ok evs = replicate k True @ [False] \<and> e = error_of (cs ! k)))"
      by blast
    have seq: "seq (map (perform P) (c # cs)) s = seq (map (perform P) cs) s1"
      using Inr by simp
    from Inr d have t1: "trace s1 = trace s @ [Ev c d True]" and j: "justified P (Ev c d True)"
      by simp_all
    show ?thesis
    proof (cases "raised (seq (map (perform P) cs) s1)")
      case None
      with evs t1 j seq show ?thesis
        by (intro exI [of _ "Ev c d True # evs"]) simp
    next
      case (Some e)
      with evs obtain k where k: "k < length cs" "map ev_call evs = take (Suc k) cs"
        "map ev_ok evs = replicate k True @ [False]" "e = error_of (cs ! k)"
        by auto
      with evs t1 j seq Some show ?thesis
        by (intro exI [of _ "Ev c d True # evs"]) (auto intro!: exI [of _ "Suc k"])
    qed
  qed
qed

lemma seq_perform_Inr:
  assumes "seq (map (perform P) cs) s = Inr s'"
  shows "\<exists>evs. trace s' = trace s @ evs \<and> map ev_call evs = cs
     \<and> map ev_ok evs = replicate (length cs) True \<and> list_all (justified P) evs"
  using seq_perform_trace [of P cs s] assms by auto

lemma seq_perform_events:
  "\<exists>evs. trace (final (seq (map (perform P) cs) s)) = trace s @ evs
     \<and> list_all (justified P) evs \<and> set (map ev_call evs) \<subseteq> set cs"
proof -
  from seq_perform_trace [of P cs s] obtain evs where evs:
    "trace (final (seq (map (perform P) cs) s)) = trace s @ evs" "list_all (justified P) evs"
    "case raised (seq (map (perform P) cs) s) of
       None \<Rightarrow> map ev_call evs = cs \<and> map ev_ok evs = replicate (length cs) True
     | Some e \<Rightarrow> (\<exists>k<length cs. map ev_call evs = take (Suc k) cs
          \<and> map ev_ok evs = replicate k True @ [False] \<and> e = error_of (cs ! k))"
    by blast
  have "set (map ev_call evs) \<subseteq> set cs"
  proof (cases "raised (seq (map (perform P) cs) s)")
    case None
    with evs(3) show ?thesis by simp
  next
    case (Some e)
    with evs(3) obtain k where "map ev_call evs = take (Suc k) cs" by auto
    then show ?thesis by (metis set_take_subset)
  qed
  with evs(1,2) show ?thesis by blast
qed

lemma seq_calls:
  "\<exists>n. n \<le> length cs \<and> (cs \<noteq> [] \<longrightarrow> 0 < n)
     \<and> calls (final (seq (map (perform P) cs) s)) = calls s @ take n cs"
proof -
  from seq_perform_trace [of P cs s] obtain evs where evs:
    "trace (final (seq (map (perform P) cs) s)) = trace s @ evs"
    "case raised (seq (map (perform P) cs) s) of
       None \<Rightarrow> map ev_call evs = cs \<and> map ev_ok evs = replicate (length cs) True
     | Some e \<Rightarrow> (\<exists>k<length cs. map ev_call evs = take (Suc k) cs
          \<and> map ev_ok evs = replicate k True @ [False] \<and> e = error_of (cs ! k))"
    by blast
  show ?thesis
  proof (cases "raised (seq (map (perform P) cs) s)")
    case None
    with evs show ?thesis
      by (intro exI [of _ "length cs"]) (auto simp: calls_def)
  next
    case (Some e)
    with evs obtain k where "k < length cs" "map ev_call evs = take (Suc k) cs" by auto
    with evs(1) show ?thesis
      by (intro exI [of _ "Suc k"]) (auto simp: calls_def)
  qed
qed

lemma seq_perform_Inl_calls:
  assumes "seq (map (perform P) cs) s = Inl (e, s')"
  shows "\<exists>n. calls s' = calls s @ take n cs"
  using seq_calls [of cs P s] assms by auto

lemma seq_perform_invariant:
  assumes "\<And>c s. c \<in> set cs \<Longrightarrow> I s \<Longrightarrow> I (final (perform P c s))" and "I s"
  shows "I (final (seq (map (perform P) cs) s))"
  by (rule seq_invariant [where I = I]) (use assms in auto)

lemma body_not_closed:
  "browser (final (seq (map (perform P) (butlast (script_calls dir))) (playwright_start (fresh P fs))))
     \<noteq> Closed"
proof (rule seq_perform_invariant [where I = "\<lambda>s. browser s \<noteq> Closed"])
  fix c and s :: "'a state"
  assume "c \<in> set (butlast (script_calls dir))" and s: "browser s \<noteq> Closed"
  then have "c \<noteq> Close" by (auto simp: script_calls_def)
  with s show "browser (final (perform P c s)) \<noteq> Closed" by (simp add: perform_not_closed)
next
  show "browser (playwright_start (fresh P fs)) \<noteq> Closed"
    by (simp add: playwright_start_def fresh_def)
qed

subsection \<open>Reading lists of calls and events\<close>

lemma not_in_take: "c \<notin> set cs \<Longrightarrow> c \<notin> set (take n cs)"
  by (meson in_set_takeD)

lemma fills_take: "fills cs = [] \<Longrightarrow> fills (take n cs) = []"
proof (induction cs arbitrary: n rule: fills.induct)
  case 1
  then show ?case by simp
next
  case (2 l v cs)
  then show ?case by simp
qed (case_tac n; simp)+

lemma fills_append: "fills (xs @ ys) = fills xs @ fills ys"
  by (induction xs rule: fills.induct) simp_all



lemma screenshots_append: "screenshots (xs @ ys) = screenshots xs @ screenshots ys"
  by (induction xs rule: screenshots.induct) simp_all

lemma checks_all_ok:
  "map ev_ok evs = replicate (length evs) True \<Longrightarrow>
     map (\<lambda>(x, l, d). (x, l)) (checks evs) = expectations (map ev_call evs)"
proof (induction evs)
  case Nil
  then show ?case by simp
next
  case (Cons ev evs)
  obtain c d ok where ev: "ev = Ev c d ok" by (cases ev)
  from Cons.prems ev have ok: "ok" and rest: "map ev_ok evs = replicate (length evs) True"
    by simp_all
  from Cons.IH [OF rest] ev ok show ?case by (cases c) simp_all
qed

lemma checks_justified:
  "list_all (justified P) evs \<Longrightarrow> \<forall>(x, l, d) \<in> set (checks evs). holds P x l d"
proof (induction evs)
  case Nil
  then show ?case by simp
next
  case (Cons ev evs)
  obtain c d ok where ev: "ev = Ev c d ok" by (cases ev)
  from Cons have IH: "\<forall>(x, l, d) \<in> set (checks evs). holds P x l d"
    and j: "justified P ev" by simp_all
  show ?case
  proof (cases ok)
    case True
    with ev j IH show ?thesis by (cases c) (simp_all add: justified_def)
  next
    case False
    with ev IH show ?thesis by (cases c) simp_all
  qed
qed

subsection \<open>Frames of a sequence\<close>

lemma seq_perform_files:
  assumes "screenshots cs = []"
  shows "files (final (seq (map (perform P) cs) s)) = files s"
proof (rule seq_perform_invariant [where I = "\<lambda>t. files t = files s"])
  fix c and t :: "'a state"
  assume c: "c \<in> set cs" and t: "files t = files s"
  have "\<forall>l p. c \<noteq> Screenshot l p"
  proof (intro allI notI)
    fix l p assume "c = Screenshot l p"
    with c obtain xs ys where "cs = xs @ Screenshot l p # ys" by (auto simp: in_set_conv_decomp)
    with assms show False by (simp add: screenshots_append)
  qed
  with t show "files (final (perform P c t)) = files s" by (simp add: perform_files)
qed simp

lemma seq_perform_entered:
  assumes "fills cs = []"
  shows "entered (final (seq (map (perform P) cs) s)) = entered s"
proof (rule seq_perform_invariant [where I = "\<lambda>t. entered t = entered s"])
  fix c and t :: "'a state"
  assume c: "c \<in> set cs" and t: "entered t = entered s"
  have "\<forall>l v. c \<noteq> Fill l v"
  proof (intro allI notI)
    fix l v assume "c = Fill l v"
    with c obtain xs ys where "cs = xs @ Fill l v # ys" by (auto simp: in_set_conv_decomp)
    with assms show False by (simp add: fills_append)
  qed
  with t show "entered (final (perform P c t)) = entered s" by (simp add: perform_entered)
qed simp

lemma seq_perform_pages:
  assumes "NewPage \<notin> set cs"
  shows "pages (final (seq (map (perform P) cs) s)) = pages s"
proof (rule seq_perform_invariant [where I = "\<lambda>t. pages t = pages s"])
  fix c and t :: "'a state"
  assume "c \<in> set cs" and t: "pages t = pages s"
  with assms have "c \<noteq> NewPage" by auto
  with t show "pages (final (perform P c t)) = pages s" by (simp add: perform_pages)
qed simp

subsection \<open>The text engine\<close>










subsection \<open>Facts about the concrete pages\<close>





lemma notice_self [simp]: "lax_text_match legal_notice_text legal_notice_text"
  by (simp add: lax_text_match_def)




theorem argv_and_environment:
  "(cwd pr1 = cwd pr2 \<and> L (environ pr1) = L (environ pr2)
      \<longrightarrow> invocation L pr1 s = invocation L pr2 s)
   \<and> invocation L (pr\<lparr>argv := a\<rparr>) s = invocation L pr s
   \<and> run_verification P (pr\<lparr>argv := a, environ := env\<rparr>) s = run_verification P pr s"
  by (simp add: invocation_def module_top_level_def run_verification_def)

section \<open>The claims\<close>

text \<open>
  C1: the first call that fails ends the run with a raised error, and nothing
  after it is attempted. A run that raises has made exactly the calls of the
  script up to one of them, all of them returned but the last, and the error is
  the one that last call raises; a run that does not raise has made all the calls
  and all returned. In particular, on a page where the locator \<open>ferias_button\<close>
  never matches an element, the run raises, makes at most the first
  seven calls (the seventh is the visibility assertion on that button, and a run
  that gets that far raises its assertion error), and never fills a field.
\<close>

theorem first_failure_aborts:
  "let r = run_verification P pr (fresh P fs); cs = script_calls (cwd pr) in
     (case raised r of
        None \<Rightarrow> calls (final r) = cs \<and> map ev_ok (trace (final r)) = replicate (length cs) True
      | Some e \<Rightarrow>
          (\<exists>k<length cs. calls (final r) = take (Suc k) cs
             \<and> map ev_ok (trace (final r)) = replicate k True @ [False]
             \<and> e = error_of (cs ! k)))
     \<and> ((\<forall>d. resolve P d ferias_button = []) \<longrightarrow>
          raised r \<noteq> None \<and> length (trace (final r)) \<le> 7 \<and> fills (calls (final r)) = []
          \<and> (length (trace (final r)) = 7 \<longrightarrow>
               raised r = Some (AssertionError (Expect ToBeVisible ferias_button))))"
proof -
  let ?s0 = "playwright_start (fresh P fs)"
  let ?cs = "script_calls (cwd pr)"
  let ?r = "run_verification P pr (fresh P fs)"
  let ?b = "seq (map (perform P) ?cs) ?s0"
  have fin: "trace (final ?r) = trace (final ?b)" and rai: "raised ?r = raised ?b"
    by (simp_all add: run_verification_def final_with_sync_playwright
        raised_with_sync_playwright script_perform)
  have part1: "case raised ?r of
        None \<Rightarrow> calls (final ?r) = ?cs \<and> map ev_ok (trace (final ?r)) = replicate (length ?cs) True
      | Some e \<Rightarrow>
          (\<exists>k<length ?cs. calls (final ?r) = take (Suc k) ?cs
             \<and> map ev_ok (trace (final ?r)) = replicate k True @ [False]
             \<and> e = error_of (?cs ! k))"
    using seq_perform_trace [of P ?cs ?s0] unfolding fin rai calls_def
    by (auto split: option.splits)
  have part2: "raised ?r \<noteq> None \<and> length (trace (final ?r)) \<le> 7 \<and> fills (calls (final ?r)) = []
          \<and> (length (trace (final ?r)) = 7 \<longrightarrow>
               raised ?r = Some (AssertionError (Expect ToBeVisible ferias_button)))"
    if absent: "\<forall>d. resolve P d ferias_button = []"
  proof -
    let ?c7 = "take 7 ?cs"
    have cut: "?b = seq (map (perform P) ?c7) ?s0"
    proof -
      have "map (perform P) ?cs =
          map (perform P) (take 6 ?cs) @ expect P ToBeVisible ferias_button # map (perform P) (drop 7 ?cs)"
        by (simp add: script_calls_def)
      moreover have "map (perform P) ?c7 =
          map (perform P) (take 6 ?cs) @ [expect P ToBeVisible ferias_button]"
        by (simp add: script_calls_def)
      ultimately show ?thesis
        using seq_cut [of "expect P ToBeVisible ferias_button"] expect_absent_raises [OF absent]
        by simp
    qed
    have last: "raised (seq (map (perform P) ?c7) ?s0) \<noteq> None"
    proof -
      have "map (perform P) ?c7 =
          map (perform P) (take 6 ?cs) @ [expect P ToBeVisible ferias_button]"
        by (simp add: script_calls_def)
      then show ?thesis
        using seq_snoc_raises [of "expect P ToBeVisible ferias_button"]
          expect_absent_raises [OF absent]
        by simp
    qed
    then obtain e where e: "raised (seq (map (perform P) ?c7) ?s0) = Some e" by auto
    from seq_perform_trace [of P ?c7 ?s0] e obtain evs k where k:
      "trace (final (seq (map (perform P) ?c7) ?s0)) = evs"
      "k < length ?c7" "map ev_call evs = take (Suc k) ?c7"
      "map ev_ok evs = replicate k True @ [False]" "e = error_of (?c7 ! k)"
      by auto
    have len: "length evs = Suc k"
      using k(4) by (metis length_map length_append_singleton length_replicate)
    have k7: "k < 7" using k(2) by (simp add: script_calls_def)
    have nofill: "fills ?c7 = []" by (simp add: script_calls_def)
    have "fills (map ev_call evs) = []"
      unfolding k(3) by (rule fills_take [OF nofill])
    moreover have "length evs = 7 \<longrightarrow> e = AssertionError (Expect ToBeVisible ferias_button)"
      using len k(5) by (auto simp: script_calls_def)
    ultimately show ?thesis
      using e k(1) len k7 unfolding fin rai cut calls_def by simp
  qed
  from part1 part2 show ?thesis unfolding Let_def by blast
qed


theorem first_failure_aborts_witness:
  "(\<forall>d. resolve no_ferias_page d ferias_button = [])
   \<and> raised (run_verification no_ferias_page demo_process (fresh no_ferias_page Map.empty))
       = Some (AssertionError (Expect ToBeVisible ferias_button))
   \<and> length (trace (final (run_verification no_ferias_page demo_process (fresh no_ferias_page Map.empty)))) = 7
   \<and> fills (calls (final (run_verification no_ferias_page demo_process (fresh no_ferias_page Map.empty)))) = []"
proof -
  have absent: "\<forall>d. resolve no_ferias_page d ferias_button = []"
    by (simp add: no_ferias_page_def ferias_button_def)
  have len: "length (trace (final (run_verification no_ferias_page demo_process (fresh no_ferias_page Map.empty)))) = 7"
    by code_simp
  show ?thesis
    using first_failure_aborts [of no_ferias_page demo_process Map.empty] absent len
    by (simp add: Let_def)
qed

text \<open>
  C2, as amended: the script makes seven assertions, not nine. In every run that
  returns without raising, the assertions that passed are exactly these seven,
  in this order (the first loading placeholder hidden, then six locators
  visible), and each held in the document in which it was checked.
\<close>

theorem seven_assertions_held_when_checked:
  "let r = run_verification P pr (fresh P fs) in
     raised r = None \<longrightarrow>
       map (\<lambda>(x, l, d). (x, l)) (checks (trace (final r))) =
         [(ToBeHidden, First loading_placeholder),
          (ToBeVisible, calculadoras_section),
          (ToBeVisible, ferias_button),
          (ToBeVisible, salario_input),
          (ToBeVisible, calculate_button),
          (ToBeVisible, results_container),
          (ToBeVisible, legal_notice_element)]
       \<and> (\<forall>(x, l, d) \<in> set (checks (trace (final r))). holds P x l d)"
proof -
  let ?s0 = "playwright_start (fresh P fs)"
  let ?cs = "script_calls (cwd pr)"
  let ?r = "run_verification P pr (fresh P fs)"
  have fin: "trace (final ?r) = trace (final (seq (map (perform P) ?cs) ?s0))"
    and rai: "raised ?r = raised (seq (map (perform P) ?cs) ?s0)"
    by (simp_all add: run_verification_def final_with_sync_playwright
        raised_with_sync_playwright script_perform)
  have goal: "map (\<lambda>(x, l, d). (x, l)) (checks (trace (final ?r))) =
         [(ToBeHidden, First loading_placeholder),
          (ToBeVisible, calculadoras_section),
          (ToBeVisible, ferias_button),
          (ToBeVisible, salario_input),
          (ToBeVisible, calculate_button),
          (ToBeVisible, results_container),
          (ToBeVisible, legal_notice_element)]
       \<and> (\<forall>(x, l, d) \<in> set (checks (trace (final ?r))). holds P x l d)"
    if ok: "raised ?r = None"
  proof -
    from ok rai obtain s' where s': "seq (map (perform P) ?cs) ?s0 = Inr s'"
      by (cases "seq (map (perform P) ?cs) ?s0") auto
    from seq_perform_Inr [OF s'] obtain evs where evs: "trace s' = evs" "map ev_call evs = ?cs"
      "map ev_ok evs = replicate (length ?cs) True" "list_all (justified P) evs"
      by auto
    have "length (map ev_call evs) = length ?cs" using evs(2) by simp
    then have "map ev_ok evs = replicate (length evs) True" using evs(3) by simp
    from checks_all_ok [OF this] have
      "map (\<lambda>(x, l, d). (x, l)) (checks evs) = expectations ?cs"
      unfolding evs(2) .
    moreover have "expectations ?cs =
         [(ToBeHidden, First loading_placeholder),
          (ToBeVisible, calculadoras_section),
          (ToBeVisible, ferias_button),
          (ToBeVisible, salario_input),
          (ToBeVisible, calculate_button),
          (ToBeVisible, results_container),
          (ToBeVisible, legal_notice_element)]"
      by (simp add: script_calls_def)
    ultimately show ?thesis
      using checks_justified [OF evs(4)] evs(1) unfolding fin s' by simp
  qed
  then show ?thesis unfolding Let_def by blast
qed

theorem seven_assertions_held_when_checked_witness:
  "raised (run_verification demo_page demo_process (fresh demo_page Map.empty)) = None
   \<and> (ToBeVisible, legal_notice_element, 6)
       \<in> set (checks (trace (final (run_verification demo_page demo_process (fresh demo_page Map.empty)))))
   \<and> holds demo_page ToBeVisible legal_notice_element 6"
proof -
  let ?r = "run_verification demo_page demo_process (fresh demo_page Map.empty)"
  have ok: "raised ?r = None" by code_simp
  have m: "(ToBeVisible, legal_notice_element, 6) \<in> set (checks (trace (final ?r)))"
    by code_simp
  show ?thesis
    using seven_assertions_held_when_checked [of demo_page demo_process Map.empty] ok m
    by (auto simp: Let_def)
qed

text \<open>
  The claim as stated fails on the count: on the concrete page the run returns
  without raising and seven assertions were checked; the script holds seven.
\<close>

theorem nine_assertions_counterexample:
  "raised (run_verification demo_page demo_process (fresh demo_page Map.empty)) = None
   \<and> length (checks (trace (final (run_verification demo_page demo_process (fresh demo_page Map.empty))))) = 7
   \<and> length (expectations (script_calls (cwd demo_process))) \<noteq> 9"
  by code_simp



text \<open>
  C4: in every run in which the calculate trigger is clicked, whatever the inputs
  held before, the trace has, before that click, the visibility assertion on the
  locator \<^verbatim>\<open>#ferias-salarioBruto\<close>, which passed on a unique visible match, directly
  followed by the fill of that locator with the literal \<^verbatim>\<open>5000.00\<close>; the value
  written into the filled element is that literal at the end of the run, and it
  is the only fill of the run.
\<close>

theorem salary_filled_before_calculate:
  "let r = run_verification P pr ((fresh P fs)\<lparr>entered := m\<rparr>) in
     Click calculate_button \<in> set (calls (final r)) \<longrightarrow>
       (\<exists>pre post d1 d2 e.
          trace (final r) =
            pre @ [Ev (Expect ToBeVisible (Css ''#ferias-salarioBruto'')) d1 True,
                   Ev (Fill (Css ''#ferias-salarioBruto'') ''5000.00'') d2 True] @ post
          \<and> Click calculate_button \<notin> set (map ev_call pre)
          \<and> target P (Css ''#ferias-salarioBruto'') d1 \<noteq> None
          \<and> target P (Css ''#ferias-salarioBruto'') d2 = Some e
          \<and> entered (final r) e = Some ''5000.00'')
       \<and> fills (calls (final r)) = [(Css ''#ferias-salarioBruto'', ''5000.00'')]"
proof -
  let ?s0 = "playwright_start ((fresh P fs)\<lparr>entered := m\<rparr>)"
  let ?cs = "script_calls (cwd pr)"
  let ?r = "run_verification P pr ((fresh P fs)\<lparr>entered := m\<rparr>)"
  let ?A = "take 9 ?cs"
  let ?B = "drop 10 ?cs"
  let ?sal = "Css ''#ferias-salarioBruto''"
  let ?calc = "Click calculate_button"
  have t0: "trace ?s0 = []" "calls ?s0 = []"
    by (simp_all add: playwright_start_def fresh_def calls_def)
  have fin: "final ?r = playwright_stop (final (seq (map (perform P) ?cs) ?s0))"
    by (simp add: run_verification_def final_with_sync_playwright script_perform)
  have cs: "map (perform P) ?cs = map (perform P) ?A @ [fill P ?sal ''5000.00''] @ map (perform P) ?B"
    by (simp add: script_calls_def salario_input_def)
  have A: "?A = take 8 ?cs @ [Expect ToBeVisible ?sal]"
    by (simp add: script_calls_def salario_input_def)
  have noA: "?calc \<notin> set ?A" and noA8: "?calc \<notin> set (take 8 ?cs)"
    by (simp_all add: script_calls_def calculate_button_def calculadoras_section_def
        ferias_button_def)
  have fillsA: "fills ?A = []" and fillsB: "fills ?B = []"
    by (simp_all add: script_calls_def)
  have goal: "(\<exists>pre post d1 d2 e.
          trace (final ?r) =
            pre @ [Ev (Expect ToBeVisible ?sal) d1 True, Ev (Fill ?sal ''5000.00'') d2 True] @ post
          \<and> ?calc \<notin> set (map ev_call pre)
          \<and> target P ?sal d1 \<noteq> None \<and> target P ?sal d2 = Some e
          \<and> entered (final ?r) e = Some ''5000.00'')
       \<and> fills (calls (final ?r)) = [(?sal, ''5000.00'')]"
    if clicked: "?calc \<in> set (calls (final ?r))"
  proof (cases "seq (map (perform P) ?A) ?s0")
    case (Inl es)
    obtain e s' where es: "es = (e, s')" by (cases es)
    from seq_perform_Inl_calls [OF Inl [unfolded es]] obtain n where "calls s' = take n ?A"
      by (auto simp: t0)
    moreover have "final ?r = playwright_stop s'"
      unfolding fin cs seq_append Inl es by simp
    ultimately have "?calc \<notin> set (calls (final ?r))"
      using not_in_take [OF noA] by simp
    with clicked show ?thesis by simp
  next
    case (Inr s1)
    from seq_perform_Inr [OF Inr] obtain evs where evs: "trace s1 = evs" "map ev_call evs = ?A"
      "map ev_ok evs = replicate (length ?A) True" "list_all (justified P) evs"
      by (auto simp: t0)
    have "length (map ev_call evs) = length ?A" using evs(2) by simp
    then have len: "length evs = 9" by (simp add: script_calls_def)
    then have ne: "evs \<noteq> []" by auto
    define pre where "pre = butlast evs"
    define ev where "ev = last evs"
    from ne have split: "evs = pre @ [ev]" by (simp add: pre_def ev_def)
    from evs(2) have "map ev_call pre @ [ev_call ev] = take 8 ?cs @ [Expect ToBeVisible ?sal]"
      unfolding split A by simp
    then have pre: "map ev_call pre = take 8 ?cs" and evc: "ev_call ev = Expect ToBeVisible ?sal"
      by simp_all
    from evs(3) have evo: "ev_ok ev" unfolding split
      by (metis in_set_replicate last_in_set last_map last_snoc map_is_Nil_conv ne split)
    from evs(4) have "justified P ev" unfolding split by simp
    with evc evo have vis: "target P ?sal (ev_doc ev) \<noteq> None"
      by (simp add: justified_def)
    have ev: "ev = Ev (Expect ToBeVisible ?sal) (ev_doc ev) True"
      using evc evo by (cases ev) simp
    have c1: "calls s1 = ?A" using evs(1,2) by (simp add: calls_def)
    show ?thesis
    proof (cases "fill P ?sal ''5000.00'' s1")
      case (Inl es)
      obtain e s2 where es: "es = (e, s2)" by (cases es)
      from perform_event [of P "Fill ?sal ''5000.00''" s1] Inl es
      have "calls s2 = calls s1 @ [Fill ?sal ''5000.00'']"
        by (auto simp: calls_def)
      moreover have "final ?r = playwright_stop s2"
        unfolding fin cs seq_append Inr using Inl es by simp
      ultimately have "?calc \<notin> set (calls (final ?r))"
        using noA c1 by simp
      with clicked show ?thesis by simp
    next
      case s2: (Inr s2)
      from fill_Inr [OF s2] obtain d2 e where de: "target P ?sal d2 = Some e"
        "trace s2 = trace s1 @ [Ev (Fill ?sal ''5000.00'') d2 True]"
        "entered s2 = (entered s1)(e \<mapsto> ''5000.00'')"
        by blast
      let ?rB = "seq (map (perform P) ?B) s2"
      have finB: "final ?r = playwright_stop (final ?rB)"
        unfolding fin cs seq_append Inr using s2 by simp
      from seq_perform_trace [of P ?B s2] obtain post where
        post: "trace (final ?rB) = trace s2 @ post" by blast
      from seq_calls [of ?B P s2] obtain n where
        n: "calls (final ?rB) = calls s2 @ take n ?B" by blast
      have c2: "calls s2 = ?A @ [Fill ?sal ''5000.00'']"
        using de(2) c1 by (simp add: calls_def)
      have "fills (calls (final ?rB)) = [(?sal, ''5000.00'')]"
        unfolding n c2 using fillsA fills_take [OF fillsB, of n]
        by (simp add: fills_append)
      moreover have "entered (final ?rB) e = Some ''5000.00''"
        using seq_perform_entered [OF fillsB, of P s2] de(3) by simp
      moreover have "trace (final ?rB) =
          pre @ [Ev (Expect ToBeVisible ?sal) (ev_doc ev) True,
                 Ev (Fill ?sal ''5000.00'') d2 True] @ post"
        unfolding post de(2) evs(1) using split ev by simp
      moreover have "?calc \<notin> set (map ev_call pre)"
        unfolding pre by (rule noA8)
      ultimately show ?thesis
        using vis de(1) unfolding finB by (simp add: calls_def) blast
    qed
  qed
  then show ?thesis unfolding Let_def by blast
qed


theorem salary_filled_before_calculate_witness:
  "Click calculate_button \<in> set (calls (final (run_verification demo_page demo_process
       ((fresh demo_page Map.empty)\<lparr>entered := [3 \<mapsto> ''1234'']\<rparr>))))
   \<and> target demo_page (Css ''#ferias-salarioBruto'') 4 = Some 3
   \<and> entered (final (run_verification demo_page demo_process
       ((fresh demo_page Map.empty)\<lparr>entered := [3 \<mapsto> ''1234'']\<rparr>))) 3 = Some ''5000.00''
   \<and> fills (calls (final (run_verification demo_page demo_process
       ((fresh demo_page Map.empty)\<lparr>entered := [3 \<mapsto> ''1234'']\<rparr>))))
       = [(Css ''#ferias-salarioBruto'', ''5000.00'')]"
proof -
  let ?r = "run_verification demo_page demo_process
       ((fresh demo_page Map.empty)\<lparr>entered := [3 \<mapsto> ''1234'']\<rparr>)"
  have c: "Click calculate_button \<in> set (calls (final ?r))" by code_simp
  have t: "target demo_page (Css ''#ferias-salarioBruto'') 4 = Some 3" by code_simp
  have e: "entered (final ?r) 3 = Some ''5000.00''" by code_simp
  show ?thesis
    using salary_filled_before_calculate [where P = demo_page and pr = demo_process
          and fs = Map.empty and m = "[3 \<mapsto> ''1234'']"]
      c t e
    by (simp add: Let_def)
qed



text \<open>
  The claim as stated fails in both directions. A notice that holds exactly the
  literal inside the results container fails the assertion when it is hidden, and
  when it stands there twice; and a notice partly in capitals and with wider
  spacing, in which the literal does not occur as it is written, passes it.
\<close>


text \<open>
  C6: on every exit path of \<open>run_verification\<close> (normal completion, a failed
  assertion, a failed navigation, or any other raise) the browser is released: at
  the end of the run neither the browser nor the driver is running, from whatever
  state the run starts. The explicit \<^verbatim>\<open>browser.close()\<close> is what releases it exactly
  on normal completion; on a raise it is the exit of the \<^verbatim>\<open>with\<close> block.
\<close>

theorem browser_released_on_every_exit:
  "browser (final (run_verification P pr s)) \<noteq> Running
   \<and> \<not> driver (final (run_verification P pr s))
   \<and> (browser (final (run_verification P pr (fresh P fs))) = Closed)
       = (raised (run_verification P pr (fresh P fs)) = None)"
proof -
  let ?s0 = "playwright_start (fresh P fs)"
  let ?A = "map (perform P) (butlast (script_calls (cwd pr)))"
  have split: "seq (script P (cwd pr)) ?s0 =
      (case seq ?A ?s0 of Inl es \<Rightarrow> Inl es | Inr s' \<Rightarrow> seq [close] s')"
  proof -
    have "script P (cwd pr) = ?A @ [close]"
      by (simp add: script_def script_calls_def)
    then show ?thesis by (simp only: seq_append)
  qed
  have nc: "browser (final (seq ?A ?s0)) \<noteq> Closed" by (rule body_not_closed)
  have "(browser (final (seq (script P (cwd pr)) ?s0)) = Closed)
      = (raised (seq (script P (cwd pr)) ?s0) = None)"
  proof (cases "seq ?A ?s0")
    case (Inl es)
    obtain e s' where "es = (e, s')" by (cases es)
    with Inl nc split show ?thesis by simp
  next
    case (Inr s')
    with split show ?thesis by (simp add: close_def log_def)
  qed
  then show ?thesis
    by (simp add: run_verification_def final_with_sync_playwright raised_with_sync_playwright
        stop_not_running stop_closed)
qed

text \<open>
  C7, as amended: a run creates exactly one Page object once the browser has
  started and the page has opened (none before), and every visibility assertion,
  click, fill and screenshot of its trace went ahead exactly if its locator
  matched one element, and that element was visible, in the document in which the
  call was decided; otherwise the call raised. The one assertion that is not of
  this kind is the wait on the first loading placeholder: it goes ahead exactly
  if \<^verbatim>\<open>.animate-pulse\<close> matches no element or its first match is not visible.
\<close>

theorem one_page_and_checked_targets:
  "let r = run_verification P pr (fresh P fs) in
     pages (final r) = (if can_launch P \<and> can_open_page P then 1 else 0)
     \<and> (\<forall>ev \<in> set (trace (final r)).
          case ev_call ev of
            Expect x l \<Rightarrow>
              (case x of
                 ToBeVisible \<Rightarrow>
                   ev_ok ev = (\<exists>e. resolve P (ev_doc ev) l = [e] \<and> visible P (ev_doc ev) e)
               | ToBeHidden \<Rightarrow>
                   l = First loading_placeholder
                   \<and> ev_ok ev =
                       (case resolve P (ev_doc ev) loading_placeholder of
                          [] \<Rightarrow> True
                        | e # es \<Rightarrow> \<not> visible P (ev_doc ev) e))
          | Click l \<Rightarrow>
              ev_ok ev = (\<exists>e. resolve P (ev_doc ev) l = [e] \<and> visible P (ev_doc ev) e)
          | Fill l v \<Rightarrow>
              ev_ok ev = (\<exists>e. resolve P (ev_doc ev) l = [e] \<and> visible P (ev_doc ev) e)
          | Screenshot l p \<Rightarrow>
              ev_ok ev = (\<exists>e. resolve P (ev_doc ev) l = [e] \<and> visible P (ev_doc ev) e)
          | _ \<Rightarrow> True)"
proof -
  let ?s0 = "playwright_start (fresh P fs)"
  let ?cs = "script_calls (cwd pr)"
  let ?r = "run_verification P pr (fresh P fs)"
  let ?b = "seq (map (perform P) ?cs) ?s0"
  have fin: "final ?r = playwright_stop (final ?b)"
    by (simp add: run_verification_def final_with_sync_playwright script_perform)
  have pages: "pages (final ?b) = (if can_launch P \<and> can_open_page P then 1 else 0)"
  proof -
    consider (a) "\<not> can_launch P" | (b) "can_launch P" "\<not> can_open_page P"
      | (c) "can_launch P" "can_open_page P" by blast
    then show ?thesis
    proof cases
      case a
      then show ?thesis
        by (simp add: script_calls_def launch_def log_def playwright_start_def fresh_def)
    next
      case b
      then show ?thesis
        by (simp add: script_calls_def launch_def new_page_def log_def playwright_start_def
            fresh_def)
    next
      case c
      let ?s2 = "log NewPage True
        ((log (Launch True) True (?s0\<lparr>browser := Running\<rparr>))\<lparr>pages := Suc (pages (log (Launch True) True (?s0\<lparr>browser := Running\<rparr>))), doc := blank P\<rparr>)"
      have two: "?b = seq (map (perform P) (drop 2 ?cs)) ?s2"
        using c by (simp add: script_calls_def launch_def new_page_def)
      have p2: "pages ?s2 = 1"
        by (simp add: log_def playwright_start_def fresh_def)
      have "NewPage \<notin> set (drop 2 ?cs)" by (simp add: script_calls_def)
      from seq_perform_pages [OF this, of P ?s2] p2 two c show ?thesis by simp
    qed
  qed
  from seq_perform_events [of P ?cs ?s0] obtain evs where evs:
    "trace (final ?b) = evs" "list_all (justified P) evs" "set (map ev_call evs) \<subseteq> set ?cs"
    by auto
  have each: "case ev_call ev of
            Expect x l \<Rightarrow>
              (case x of
                 ToBeVisible \<Rightarrow>
                   ev_ok ev = (\<exists>e. resolve P (ev_doc ev) l = [e] \<and> visible P (ev_doc ev) e)
               | ToBeHidden \<Rightarrow>
                   l = First loading_placeholder
                   \<and> ev_ok ev =
                       (case resolve P (ev_doc ev) loading_placeholder of
                          [] \<Rightarrow> True
                        | e # es \<Rightarrow> \<not> visible P (ev_doc ev) e))
          | Click l \<Rightarrow>
              ev_ok ev = (\<exists>e. resolve P (ev_doc ev) l = [e] \<and> visible P (ev_doc ev) e)
          | Fill l v \<Rightarrow>
              ev_ok ev = (\<exists>e. resolve P (ev_doc ev) l = [e] \<and> visible P (ev_doc ev) e)
          | Screenshot l p \<Rightarrow>
              ev_ok ev = (\<exists>e. resolve P (ev_doc ev) l = [e] \<and> visible P (ev_doc ev) e)
          | _ \<Rightarrow> True"
    if ev: "ev \<in> set evs" for ev
  proof -
    from ev evs(2) have j: "justified P ev" by (simp add: list_all_iff)
    from ev evs(3) have mem: "ev_call ev \<in> set ?cs" by auto
    show ?thesis
    proof (cases "ev_call ev")
      case (Expect x l)
      show ?thesis
      proof (cases x)
        case ToBeVisible
        with Expect j show ?thesis by (simp add: justified_def target_iff)
      next
        case ToBeHidden
        with Expect mem have l: "l = First loading_placeholder"
          by (auto simp: script_calls_def)
        with Expect ToBeHidden j show ?thesis
          by (simp add: justified_def hidden_first del: holds.simps)
      qed
    qed (use j in \<open>simp_all add: justified_def target_iff\<close>)
  qed
  with pages evs(1) show ?thesis unfolding Let_def fin by simp
qed

theorem one_page_and_checked_targets_witness:
  "Ev (Screenshot results_container screenshot_path) 6 True
     \<in> set (trace (final (run_verification demo_page demo_process (fresh demo_page Map.empty))))
   \<and> pages (final (run_verification demo_page demo_process (fresh demo_page Map.empty))) = 1
   \<and> (\<exists>e. resolve demo_page 6 results_container = [e] \<and> visible demo_page 6 e)"
proof -
  let ?r = "run_verification demo_page demo_process (fresh demo_page Map.empty)"
  have m: "Ev (Screenshot results_container screenshot_path) 6 True \<in> set (trace (final ?r))"
    by code_simp
  have c: "can_launch demo_page \<and> can_open_page demo_page" by (simp add: demo_page_def)
  show ?thesis
    using one_page_and_checked_targets [of demo_page demo_process Map.empty] m c
    by (auto simp: Let_def)
qed

text \<open>
  The claim as stated fails at the wait on the loading placeholder: on the
  concrete page that assertion passes, and the run goes on to the end, in a
  document where the locator matches no element at all.
\<close>

theorem placeholder_absent_counterexample:
  "raised (run_verification demo_page demo_process (fresh demo_page Map.empty)) = None
   \<and> trace (final (run_verification demo_page demo_process (fresh demo_page Map.empty))) ! 3
       = Ev (Expect ToBeHidden (First loading_placeholder)) 2 True
   \<and> resolve demo_page 2 loading_placeholder = []
   \<and> resolve demo_page 2 (First loading_placeholder) = []"
  by code_simp

text \<open>
  C8: a run that returns without raising has asked for exactly one screenshot, of
  the unique visible match of \<^verbatim>\<open>#ferias-results\<close>, written to
  \<^verbatim>\<open>jules-scratch/verification/verification.png\<close>. The file system at the end is
  the one at the start with that one path set to the image, whatever was stored
  there before; every other path is as it was, and neither the browser nor the
  driver is left running.
\<close>

theorem one_screenshot_written:
  "let r = run_verification P pr (fresh P fs) in
     raised r = None \<longrightarrow>
       (\<exists>d e. Ev (Screenshot (Css ''#ferias-results'')
                   ''jules-scratch/verification/verification.png'') d True \<in> set (trace (final r))
          \<and> target P (Css ''#ferias-results'') d = Some e
          \<and> files (final r) = fs(''jules-scratch/verification/verification.png'' \<mapsto> render P d e))
       \<and> screenshots (calls (final r)) =
           [(Css ''#ferias-results'', ''jules-scratch/verification/verification.png'')]
       \<and> browser (final r) = Closed \<and> \<not> driver (final r)"
proof -
  let ?s0 = "playwright_start (fresh P fs)"
  let ?cs = "script_calls (cwd pr)"
  let ?r = "run_verification P pr (fresh P fs)"
  let ?A = "take 14 ?cs"
  let ?path = "''jules-scratch/verification/verification.png''"
  let ?res = "Css ''#ferias-results''"
  have fin: "final ?r = playwright_stop (final (seq (map (perform P) ?cs) ?s0))"
    and rai: "raised ?r = raised (seq (map (perform P) ?cs) ?s0)"
    by (simp_all add: run_verification_def final_with_sync_playwright
        raised_with_sync_playwright script_perform)
  have cs: "map (perform P) ?cs = map (perform P) ?A @ [screenshot P ?res ?path, close]"
    by (simp add: script_calls_def results_container_def screenshot_path_def)
  have goal: "(\<exists>d e. Ev (Screenshot ?res ?path) d True \<in> set (trace (final ?r))
          \<and> target P ?res d = Some e
          \<and> files (final ?r) = fs(?path \<mapsto> render P d e))
       \<and> screenshots (calls (final ?r)) = [(?res, ?path)]
       \<and> browser (final ?r) = Closed \<and> \<not> driver (final ?r)"
    if ok: "raised ?r = None"
  proof -
    from ok rai obtain s3 where s3: "seq (map (perform P) ?cs) ?s0 = Inr s3"
      by (cases "seq (map (perform P) ?cs) ?s0") auto
    then obtain s1 s2 where s1: "seq (map (perform P) ?A) ?s0 = Inr s1"
      and s2: "screenshot P ?res ?path s1 = Inr s2" and s3': "close s2 = Inr s3"
      unfolding cs seq_append by (auto split: sum.splits)
    have "screenshots ?A = []" by (simp add: script_calls_def)
    from seq_perform_files [OF this, of P ?s0] s1 have f1: "files s1 = fs"
      by (simp add: playwright_start_def fresh_def)
    from screenshot_Inr [OF s2] obtain d e where de: "target P ?res d = Some e"
      "trace s2 = trace s1 @ [Ev (Screenshot ?res ?path) d True]"
      "files s2 = (files s1)(?path \<mapsto> render P d e)"
      by blast
    from s3' have t3: "trace s3 = trace s2 @ [Ev Close (doc s2) True]" "files s3 = files s2"
      "browser s3 = Closed"
      by (auto simp: close_def log_def)
    from seq_perform_Inr [OF s3] have "calls s3 = ?cs" by (auto simp: calls_def)
    then have "screenshots (calls s3) = [(?res, ?path)]"
      by (simp add: script_calls_def results_container_def screenshot_path_def)
    with de t3 f1 show ?thesis
      unfolding fin s3 by (auto simp: stop_not_running browser_stop_closed)
  qed
  then show ?thesis unfolding Let_def by blast
qed

theorem one_screenshot_written_witness:
  "raised (run_verification demo_page demo_process
      (fresh demo_page [''jules-scratch/verification/verification.png'' \<mapsto> ''old'']))
     = None
   \<and> files (final (run_verification demo_page demo_process
      (fresh demo_page [''jules-scratch/verification/verification.png'' \<mapsto> ''old''])))
     = [''jules-scratch/verification/verification.png'' \<mapsto> ''PNG'']"
proof -
  have ok: "raised (run_verification demo_page demo_process
      (fresh demo_page [''jules-scratch/verification/verification.png'' \<mapsto> ''old''])) = None"
    by code_simp
  have r: "render demo_page d e = ''PNG''" for d e
    by (simp add: demo_page_def)
  show ?thesis
    using one_screenshot_written [of demo_page demo_process
        "[''jules-scratch/verification/verification.png'' \<mapsto> ''old'']"] ok
    by (auto simp: Let_def r)
qed

text \<open>
  C9, as amended: the script reads neither the command line nor the environment
  variables; it reads the working directory, and everything else it does goes
  through the library. Two invocations in processes with the same working
  directory, and with environments under which the library and the page behave
  alike, have the same outcome from the same state: the same trace of calls, the
  same files, the same error if any. The command line never matters; and with the
  library's behaviour given, \<open>run_verification\<close> does not depend on the command line
  or the environment at all.
\<close>

theorem argv_and_environment_witness:
  "cwd demo_process = cwd other_process
   \<and> argv demo_process \<noteq> argv other_process
   \<and> environ demo_process \<noteq> environ other_process
   \<and> demo_library (environ demo_process) = demo_library (environ other_process)
   \<and> invocation demo_library demo_process (fresh demo_page Map.empty)
       = invocation demo_library other_process (fresh demo_page Map.empty)
   \<and> raised (invocation demo_library other_process (fresh demo_page Map.empty)) = None"
proof -
  have c: "cwd demo_process = cwd other_process"
    and a: "argv demo_process \<noteq> argv other_process"
    by (simp_all add: demo_process_def other_process_def)
  have e: "environ demo_process \<noteq> environ other_process"
  proof
    assume "environ demo_process = environ other_process"
    then have "environ demo_process ''DEBUG'' = environ other_process ''DEBUG''" by simp
    then show False by (simp add: demo_process_def other_process_def)
  qed
  have l: "demo_library (environ demo_process) = demo_library (environ other_process)"
    by (simp add: demo_library_def demo_process_def other_process_def)
  have r: "raised (invocation demo_library other_process (fresh demo_page Map.empty)) = None"
    by code_simp
  show ?thesis
    using argv_and_environment [of demo_process other_process demo_library
        "fresh demo_page Map.empty"] c a e l r
    by simp
qed

text \<open>
  The claim as stated fails because the library reads the environment: in two
  processes with the same working directory, on the same page, the run completes
  in one and ends at the launch of the browser in the other, whose environment
  points the library to a place without browsers.
\<close>

theorem environment_counterexample:
  "cwd demo_process = cwd misconfigured_process
   \<and> raised (invocation demo_library demo_process (fresh demo_page Map.empty)) = None
   \<and> raised (invocation demo_library misconfigured_process (fresh demo_page Map.empty))
       = Some (PlaywrightError (Launch True))
   \<and> calls (final (invocation demo_library misconfigured_process (fresh demo_page Map.empty)))
       = [Launch True]
   \<and> invocation demo_library demo_process (fresh demo_page Map.empty)
       \<noteq> invocation demo_library misconfigured_process (fresh demo_page Map.empty)"
proof -
  have c: "cwd demo_process = cwd misconfigured_process"
    by (simp add: demo_process_def misconfigured_process_def)
  have ok: "raised (invocation demo_library demo_process (fresh demo_page Map.empty)) = None"
    by code_simp
  have bad: "raised (invocation demo_library misconfigured_process (fresh demo_page Map.empty))
       = Some (PlaywrightError (Launch True))"
    by code_simp
  have cs: "calls (final (invocation demo_library misconfigured_process (fresh demo_page Map.empty)))
       = [Launch True]"
    by code_simp
  from ok bad have "invocation demo_library demo_process (fresh demo_page Map.empty)
       \<noteq> invocation demo_library misconfigured_process (fresh demo_page Map.empty)"
    by auto
  with c ok bad cs show ?thesis by blast
qed

text \<open>
  C10: \<open>run_verification\<close> is called only under the \<^verbatim>\<open>__main__\<close> guard. Executing the
  module's top level under any other module name (an import) returns with the
  state unchanged: no browser, no navigation, no click, no file.
\<close>

theorem import_has_no_effect:
  "name \<noteq> ''__main__'' \<Longrightarrow> module_top_level P name pr s = Inr s"
  by (simp add: module_top_level_def)

theorem import_has_no_effect_witness:
  "''verify_footer'' \<noteq> ''__main__''
   \<and> module_top_level demo_page ''verify_footer'' demo_process (fresh demo_page Map.empty)
       = Inr (fresh demo_page Map.empty)
   \<and> trace (final (module_top_level demo_page ''verify_footer'' demo_process (fresh demo_page Map.empty))) = []
   \<and> trace (final (module_top_level demo_page ''__main__'' demo_process (fresh demo_page Map.empty))) \<noteq> []"
proof -
  have n: "''verify_footer'' \<noteq> ''__main__''" by simp
  have t: "trace (final (module_top_level demo_page ''__main__'' demo_process (fresh demo_page Map.empty))) \<noteq> []"
    by code_simp
  show ?thesis
    using import_has_no_effect [OF n, of demo_page demo_process "fresh demo_page Map.empty"] t
    by (simp add: fresh_def)
qed

end
